theory Spec2Isabelle
  imports Complex_Main "HOL-Library.Sublist"
begin

section \<open>Python strings\<close>

text \<open>
  The merge of \<^verbatim>\<open>process_chapter\<close> works on the chapter markup as a Python \<^verbatim>\<open>str\<close>
  with four operations: \<^verbatim>\<open>s.rstrip(chars)\<close>, \<^verbatim>\<open>sub in s\<close>, \<^verbatim>\<open>s.replace(old, new, 1)\<close>
  and f-string formatting. Strings are \<^typ>\<open>string\<close>; an f-string is the concatenation of
  its pieces, and \<^verbatim>\<open>{n}\<close> for an integer is its decimal numeral.
\<close>

definition rstrip :: "string \<Rightarrow> string \<Rightarrow> string" where
  "rstrip s chars = rev (dropWhile (\<lambda>c. c \<in> set chars) (rev s))"

text \<open>\<^verbatim>\<open>s.find(sub)\<close>: the lowest index at which \<^verbatim>\<open>sub\<close> starts, \<open>None\<close> for Python's -1.\<close>

primrec str_find :: "string \<Rightarrow> string \<Rightarrow> nat option" where
  "str_find [] sub = (if sub = [] then Some 0 else None)"
| "str_find (c # cs) sub =
     (if prefix sub (c # cs) then Some 0 else map_option Suc (str_find cs sub))"

text \<open>\<^verbatim>\<open>sub in s\<close>\<close>

definition str_in :: "string \<Rightarrow> string \<Rightarrow> bool" where
  "str_in sub s = (str_find s sub \<noteq> None)"

text \<open>\<^verbatim>\<open>s.replace(old, new, 1)\<close>: only the first occurrence is replaced; an empty \<^verbatim>\<open>old\<close>
  occurs at index 0, so \<^verbatim>\<open>new\<close> is put in front.\<close>

definition replace1 :: "string \<Rightarrow> string \<Rightarrow> string \<Rightarrow> string" where
  "replace1 s old new =
     (case str_find s old of
        None \<Rightarrow> s
      | Some i \<Rightarrow> take i s @ new @ drop (i + length old) s)"

text \<open>\<^verbatim>\<open>str(n)\<close> for a non-negative integer.\<close>

fun str_nat :: "nat \<Rightarrow> string" where
  "str_nat n =
     (if n < 10 then [''0123456789'' ! n]
      else str_nat (n div 10) @ [''0123456789'' ! (n mod 10)])"

declare str_nat.simps [simp del]

section \<open>Errors\<close>

text \<open>The exceptions the modelled code can raise. Nothing in the source catches any of
  them: a raise ends the enclosing call, and its caller's.\<close>

datatype error =
    KeyError string
  | IndexError
  | AttributeError
  | TypeError
  | RemoteCallError

section \<open>The merge: footnotes (lines 270-281 of \<^verbatim>\<open>process_chapter\<close>)\<close>

text \<open>
  An annotation or addition result is a Python dict from field names to strings (the tool
  schemas \<^verbatim>\<open>Annotation\<close> and \<^verbatim>\<open>Addition\<close> declare every field \<^verbatim>\<open>str\<close>); a field may be
  missing, since the structured output is decoded best-effort from possibly truncated JSON.
\<close>

type_synonym pydict = "string \<rightharpoonup> string"

text \<open>
  The local variables the merge updates: the markup \<^verbatim>\<open>section_xml\<close>, the counter
  \<^verbatim>\<open>footnote_number\<close> and the pending list \<^verbatim>\<open>section_append\<close>. The field \<open>noterefs\<close> is
  not a variable of the source: it logs, in order, the number rendered into each
  \<^verbatim>\<open><sup>\<close> marker at the moment the marker is inserted.
\<close>

record merge_state =
  section_xml :: string
  footnote_number :: nat
  section_append :: "string list"
  noterefs :: "nat list"

definition noteref_marker :: "string \<Rightarrow> string \<Rightarrow> nat \<Rightarrow> string" where
  \<open>noteref_marker reader note_id n =
     ''<a class="noteref '' @ reader @ ''" epub:type="noteref" href="#'' @ note_id
       @ ''"><sup>'' @ str_nat n @ ''</sup></a>''\<close>

definition footnote_aside :: "string \<Rightarrow> string \<Rightarrow> string \<Rightarrow> string \<Rightarrow> string" where
  \<open>footnote_aside whitespace note_id reader note =
     whitespace @ ''<aside class="footnote" epub:type="footnote" id="'' @ note_id
       @ ''"><strong>'' @ reader @ '':</strong> '' @ note @ ''</aside>''\<close>

text \<open>
  The body of the loop, for the annotation at index \<open>i\<close>. The test of line 273 is
  \<^verbatim>\<open>not 'text' in annotation and 'annotation' in annotation\<close>, which Python reads as
  \<^verbatim>\<open>(not ('text' in annotation)) and ('annotation' in annotation)\<close>.
\<close>

definition annotate_step ::
  "string \<Rightarrow> string \<Rightarrow> nat \<Rightarrow> pydict \<Rightarrow> merge_state \<Rightarrow> error + merge_state" where
  "annotate_step stem whitespace i annotation st =
     (if ''text'' \<notin> dom annotation \<and> ''annotation'' \<in> dom annotation then Inr st
      else
        case annotation ''text'' of
          None \<Rightarrow> Inl (KeyError ''text'')
        | Some t \<Rightarrow>
            let anchor = rstrip t ''.'' in
            if str_in anchor (section_xml st) then
              let annotation' = annotation(''reader'' \<mapsto> ''Publisher'');
                  reader = the (annotation' ''reader'');
                  note_id = stem @ ''-note'' @ str_nat i;
                  xml' = replace1 (section_xml st) anchor
                           (anchor @ noteref_marker reader note_id (footnote_number st))
              in case annotation' ''annotation'' of
                   None \<Rightarrow> Inl (KeyError ''annotation'')
                 | Some note \<Rightarrow>
                     Inr (st\<lparr>section_xml := xml',
                             footnote_number := footnote_number st + 1,
                             section_append :=
                               section_append st @ [footnote_aside whitespace note_id reader note],
                             noterefs := noterefs st @ [footnote_number st]\<rparr>)
            else Inr st)"

text \<open>\<^verbatim>\<open>for i, annotation in enumerate(annotations)\<close>, from index \<open>i\<close> on.\<close>

fun annotate_loop ::
  "string \<Rightarrow> string \<Rightarrow> nat \<Rightarrow> pydict list \<Rightarrow> merge_state \<Rightarrow> error + merge_state" where
  "annotate_loop stem whitespace i [] st = Inr st"
| "annotate_loop stem whitespace i (a # rest) st =
     (case annotate_step stem whitespace i a st of
        Inl e \<Rightarrow> Inl e
      | Inr st' \<Rightarrow> annotate_loop stem whitespace (Suc i) rest st')"

text \<open>
  The whole footnote block. \<^verbatim>\<open>if annotations:\<close> skips an empty list; the counter starts
  at 1 and \<^verbatim>\<open>section_append\<close> is empty (line 265).
\<close>

definition merge_init :: "string \<Rightarrow> merge_state" where
  "merge_init xml =
     \<lparr>section_xml = xml, footnote_number = 1, section_append = [], noterefs = []\<rparr>"

definition process_annotations ::
  "string \<Rightarrow> string \<Rightarrow> pydict list \<Rightarrow> string \<Rightarrow> error + merge_state" where
  "process_annotations stem whitespace annotations xml =
     (if annotations \<noteq> [] then annotate_loop stem whitespace 0 annotations (merge_init xml)
      else Inr (merge_init xml))"

section \<open>The merge: extra sentence (lines 283-288 of \<^verbatim>\<open>process_chapter\<close>)\<close>

definition addition_box :: "string \<Rightarrow> string \<Rightarrow> string" where
  \<open>addition_box whitespace new_sentence =
     whitespace @ ''<div class="ai-addition annotation-box">''
       @ ''The Publisher regretted the necessity to add: '' @ new_sentence @ ''</div>''\<close>

text \<open>\<^verbatim>\<open>for addition in additions: if ... in section_xml: ...; break\<close>\<close>

fun add_sentence :: "string \<Rightarrow> pydict list \<Rightarrow> merge_state \<Rightarrow> error + merge_state" where
  "add_sentence whitespace [] st = Inr st"
| "add_sentence whitespace (addition # rest) st =
     (case addition ''existing_sentence'' of
        None \<Rightarrow> Inl (KeyError ''existing_sentence'')
      | Some existing \<Rightarrow>
          if str_in existing (section_xml st) then
            case addition ''new_sentence'' of
              None \<Rightarrow> Inl (KeyError ''new_sentence'')
            | Some new \<Rightarrow>
                Inr (st\<lparr>section_xml :=
                          replace1 (section_xml st) existing (existing @ '' '' @ new),
                        section_append := section_append st @ [addition_box whitespace new]\<rparr>)
          else add_sentence whitespace rest st)"

section \<open>The illustration block (lines 304-305 of \<^verbatim>\<open>process_chapter\<close>)\<close>

text \<open>
  The section is handled through PyQuery at this point. Its element structure is a tree: an
  element has a tag and child elements (text content is left out: it plays no part in
  \<^verbatim>\<open>section('p')\<close> or in the position that \<^verbatim>\<open>.after\<close> inserts at). A markup string that
  the code hands to PyQuery to be parsed and inserted is kept as a \<open>Markup\<close> leaf.
\<close>

datatype xml = Element string "xml list" | Markup string

fun is_element :: "string \<Rightarrow> xml \<Rightarrow> bool" where
  "is_element tag (Element t cs) = (t = tag)"
| "is_element tag (Markup m) = False"

text \<open>A node is addressed by the path of child indices that leads to it from the section.\<close>

fun node_at :: "nat list \<Rightarrow> xml \<Rightarrow> xml option" where
  "node_at [] t = Some t"
| "node_at (i # p) (Element tag cs) = (if i < length cs then node_at p (cs ! i) else None)"
| "node_at (i # p) (Markup m) = None"

text \<open>\<^verbatim>\<open>section(tag)\<close>: the descendants of the section with that tag, in document order.\<close>

fun select :: "string \<Rightarrow> xml \<Rightarrow> nat list list"
  and select_children :: "string \<Rightarrow> nat \<Rightarrow> xml list \<Rightarrow> nat list list" where
  "select tag (Markup m) = []"
| "select tag (Element t cs) = select_children tag 0 cs"
| "select_children tag i [] = []"
| "select_children tag i (c # cs) =
     (if is_element tag c then [[i]] else []) @ map ((#) i) (select tag c)
       @ select_children tag (Suc i) cs"

text \<open>\<^verbatim>\<open>PyQuery(node).after(new)\<close>: \<open>new\<close> becomes the next sibling of the node. (The node
  is a descendant of the section: its path is not empty and leads to a node.)\<close>

fun insert_after :: "nat list \<Rightarrow> xml \<Rightarrow> xml \<Rightarrow> xml" where
  "insert_after [] new t = t"
| "insert_after [i] new (Element tag cs) = Element tag (take (Suc i) cs @ new # drop (Suc i) cs)"
| "insert_after (i # p) new (Element tag cs) =
     (if i < length cs then Element tag (cs[i := insert_after p new (cs ! i)])
      else Element tag cs)"
| "insert_after (i # p) new (Markup m) = Markup m"

definition next_sibling :: "nat list \<Rightarrow> nat list" where
  "next_sibling p = butlast p @ [Suc (last p)]"

definition illustration_block :: "string \<Rightarrow> string \<Rightarrow> string \<Rightarrow> string" where
  \<open>illustration_block whitespace image_name sentence =
     whitespace @ ''<div class="ai-illustration annotation-box">'' @ whitespace
       @ ''<img src="../images/'' @ image_name @ ''"/>'' @ whitespace
       @ ''<p><em>'' @ sentence @ ''</em></p>'' @ whitespace @ ''</div>''\<close>

text \<open>
  \<^verbatim>\<open>middle_paragraph = PyQuery(section('p')[len(section('p'))//2])\<close> raises IndexError when
  the section has no paragraph; the f-string of line 305 then reads
  \<^verbatim>\<open>illustration["existing_sentence"]\<close>.
\<close>

definition insert_illustration :: "string \<Rightarrow> string \<Rightarrow> pydict \<Rightarrow> xml \<Rightarrow> error + xml" where
  "insert_illustration whitespace image_name illustration section =
     (let ps = select ''p'' section in
      if ps = [] then Inl IndexError
      else
        let middle_paragraph = ps ! (length ps div 2) in
        case illustration ''existing_sentence'' of
          None \<Rightarrow> Inl (KeyError ''existing_sentence'')
        | Some sentence \<Rightarrow>
            Inr (insert_after middle_paragraph
                   (Markup (illustration_block whitespace image_name sentence)) section))"

section \<open>Caching (lines 33-58)\<close>

text \<open>
  The values that travel through the cache and the adapter are Python data: what the JSON
  decoder and the backends return. (Floats do not occur in the tool schemas and are left
  out.)
\<close>

datatype pyval =
    PNone
  | PBool bool
  | PInt int
  | PStr string
  | PBytes string
  | PList "pyval list"
  | PDict "(string \<times> pyval) list"

text \<open>Python's truth value of an object, as taken by \<^verbatim>\<open>if x:\<close>.\<close>

fun truthy :: "pyval \<Rightarrow> bool" where
  "truthy PNone = False"
| "truthy (PBool b) = b"
| "truthy (PInt i) = (i \<noteq> 0)"
| "truthy (PStr s) = (s \<noteq> [])"
| "truthy (PBytes b) = (b \<noteq> [])"
| "truthy (PList xs) = (xs \<noteq> [])"
| "truthy (PDict kvs) = (kvs \<noteq> [])"

text \<open>The shelf \<^verbatim>\<open>cache_db\<close>. \<^verbatim>\<open>cache_db.get(key)\<close> is \<^verbatim>\<open>None\<close> for a key that is not there.\<close>

type_synonym cache = "string \<rightharpoonup> pyval"

definition store_cache :: "string \<Rightarrow> pyval \<Rightarrow> cache \<Rightarrow> cache" where
  "store_cache key v db = db(key \<mapsto> v)"

definition get_cache :: "string \<Rightarrow> cache \<Rightarrow> pyval" where
  "get_cache key db = (case db key of None \<Rightarrow> PNone | Some v \<Rightarrow> v)"

text \<open>
  The state a decorated function runs in: the shelf, and the rest of the world (\<open>'w\<close>) that
  the undecorated function works on. None of the three decorated functions of the source
  touches the shelf itself, so an undecorated function is a transformer of \<open>'w\<close> that returns
  a value or raises.
\<close>

record 'w system =
  cache_db :: cache
  world :: 'w

text \<open>\<^verbatim>\<open>cache_key = kwargs.pop('cache_key', None)\<close>; \<^verbatim>\<open>if cache_key:\<close> holds for a
  non-empty string.\<close>

definition key_given :: "string option \<Rightarrow> bool" where
  "key_given cache_key = (case cache_key of None \<Rightarrow> False | Some k \<Rightarrow> k \<noteq> [])"

text \<open>
  The wrapper of \<^verbatim>\<open>cached\<close>. The test \<^verbatim>\<open>if cached := get_cache(cache_key):\<close> is on the
  truth value of what the shelf returns. An exception of \<^verbatim>\<open>func\<close> leaves the wrapper
  before \<^verbatim>\<open>store_cache\<close>.
\<close>

definition cached ::
  "('a \<Rightarrow> 'w \<Rightarrow> (error + pyval) \<times> 'w) \<Rightarrow> 'a \<Rightarrow> string option \<Rightarrow> 'w system
     \<Rightarrow> (error + pyval) \<times> 'w system" where
  "cached func args cache_key s =
     (let hit = (if key_given cache_key then get_cache (the cache_key) (cache_db s) else PNone)
      in if key_given cache_key \<and> truthy hit then (Inr hit, s)
         else
           case func args (world s) of
             (Inl e, w) \<Rightarrow> (Inl e, s\<lparr>world := w\<rparr>)
           | (Inr out, w) \<Rightarrow>
               (Inr out,
                if key_given cache_key
                then s\<lparr>cache_db := store_cache (the cache_key) out (cache_db s), world := w\<rparr>
                else s\<lparr>world := w\<rparr>))"

section \<open>The remote call adapter (lines 92-162)\<close>

datatype model = Dialogue | Annotation | Addition | Illustration | ReaderAnnotation
  | ItemList model

record tool =
  tool_name :: string
  tool_description :: string
  tool_parameters :: model

definition make_openai_tool :: "string \<Rightarrow> string \<Rightarrow> model \<Rightarrow> tool" where
  "make_openai_tool name description m =
     \<lparr>tool_name = name, tool_description = description, tool_parameters = m\<rparr>"

definition make_openai_tool_list :: "string \<Rightarrow> string \<Rightarrow> model \<Rightarrow> tool" where
  "make_openai_tool_list name description m = make_openai_tool name description (ItemList m)"

definition dialogue_tool :: tool where
  "dialogue_tool = make_openai_tool_list ''dialog'' ''Process a dialog'' Dialogue"

definition annotate_tool :: tool where
  "annotate_tool = make_openai_tool_list ''annotate'' ''Handle list of annotations'' Annotation"

definition addition_tool :: tool where
  "addition_tool = make_openai_tool ''addition'' ''Handle new sentence'' Addition"

definition reader_annotate_tool :: tool where
  "reader_annotate_tool =
     make_openai_tool_list ''annotate'' ''Handle list of annotations'' ReaderAnnotation"

definition illustration_tool :: tool where
  "illustration_tool = make_openai_tool ''illustration'' ''Generate illustration'' Illustration"

text \<open>
  The arguments of \<^verbatim>\<open>get_completion_text\<close>: the prompt, the optional tool, and the keyword
  arguments \<^verbatim>\<open>temperature\<close> and \<^verbatim>\<open>n\<close> that are passed on to the backend when given.
\<close>

record completion_args =
  arg_prompt :: string
  arg_tool :: "tool option"
  arg_temperature :: "rat option"
  arg_n :: "nat option"

text \<open>
  The backend is outside the program. The world of \<^verbatim>\<open>get_completion_text\<close> is the log of
  the requests issued so far, and a backend answers a request, given how many requests came
  before it, with an error or with one payload per choice: the message content, or, when a
  tool was requested, the arguments of the tool call as decoded by \<^verbatim>\<open>partial_json_loads\<close>.
\<close>

type_synonym remote = "completion_args list"
type_synonym backend = "completion_args \<Rightarrow> nat \<Rightarrow> error + pyval list"

text \<open>Lines 155-157: \<^verbatim>\<open>if out.keys() == {'items'}: out = out['items']\<close>. Only a dict has
  \<^verbatim>\<open>keys\<close>.\<close>

definition unwrap_items :: "pyval \<Rightarrow> error + pyval" where
  "unwrap_items out =
     (case out of
        PDict kvs \<Rightarrow>
          if set (map fst kvs) = {''items''}
          then (case map_of kvs ''items'' of
                  None \<Rightarrow> Inl (KeyError ''items'')
                | Some v \<Rightarrow> Inr v)
          else Inr out
      | _ \<Rightarrow> Inl AttributeError)"

text \<open>The loop of lines 154-158 over the choices.\<close>

fun unwrap_all :: "pyval list \<Rightarrow> error + pyval list" where
  "unwrap_all [] = Inr []"
| "unwrap_all (c # cs) =
     (case unwrap_items c of
        Inl e \<Rightarrow> Inl e
      | Inr out \<Rightarrow>
          (case unwrap_all cs of
             Inl e \<Rightarrow> Inl e
           | Inr outs \<Rightarrow> Inr (out # outs)))"

text \<open>The undecorated \<^verbatim>\<open>get_completion_text\<close>.\<close>

definition get_completion_text ::
  "backend \<Rightarrow> completion_args \<Rightarrow> remote \<Rightarrow> (error + pyval) \<times> remote" where
  "get_completion_text chat args w =
     (let w' = w @ [args] in
      case chat args (length w) of
        Inl e \<Rightarrow> (Inl e, w')
      | Inr choices \<Rightarrow>
          (case (if arg_tool args \<noteq> None then unwrap_all choices else Inr choices) of
             Inl e \<Rightarrow> (Inl e, w')
           | Inr out_list \<Rightarrow>
               (if arg_n args \<noteq> None then Inr (PList out_list)
                else (case out_list of [] \<Rightarrow> Inl IndexError | out # _ \<Rightarrow> Inr out),
                w')))"

section \<open>The dispatcher (lines 189-191)\<close>

text \<open>
  \<^verbatim>\<open>executor.map\<close> creates one future per job, in the order of the jobs; worker threads
  complete them in an order of their own; \<^verbatim>\<open>list(...)\<close> reads the futures in the order of
  the jobs, waits for each, and re-raises the exception of the first one that failed.
  The order in which the workers take the jobs is the parameter \<open>order\<close>, a list of job
  indices; a job runs at most once, and jobs run one after the other on the shared state.
  (The width \<^verbatim>\<open>max_workers\<close> of the pool only bounds how many run at a time.)
\<close>

fun run_jobs ::
  "('j \<Rightarrow> 's \<Rightarrow> (error + 'r) \<times> 's) \<Rightarrow> 'j list \<Rightarrow> nat list \<Rightarrow> (error + 'r) option list \<Rightarrow> 's
     \<Rightarrow> (error + 'r) option list \<times> 's" where
  "run_jobs func jobs [] futures s = (futures, s)"
| "run_jobs func jobs (i # order) futures s =
     (if i < length jobs \<and> futures ! i = None
      then (case func (jobs ! i) s of
              (r, s') \<Rightarrow> run_jobs func jobs order (futures[i := Some r]) s')
      else run_jobs func jobs order futures s)"

text \<open>Reading the futures in submission order. A future that no worker ever completes is
  waited for without end: the result is \<open>None\<close>.\<close>

fun collect_results :: "(error + 'r) option list \<Rightarrow> (error + 'r list) option" where
  "collect_results [] = Some (Inr [])"
| "collect_results (None # fs) = None"
| "collect_results (Some (Inl e) # fs) = Some (Inl e)"
| "collect_results (Some (Inr r) # fs) =
     (case collect_results fs of
        None \<Rightarrow> None
      | Some (Inl e) \<Rightarrow> Some (Inl e)
      | Some (Inr rs) \<Rightarrow> Some (Inr (r # rs)))"

definition run_threaded ::
  "('j \<Rightarrow> 's \<Rightarrow> (error + 'r) \<times> 's) \<Rightarrow> 'j list \<Rightarrow> nat list \<Rightarrow> 's
     \<Rightarrow> (error + 'r list) option \<times> 's" where
  "run_threaded func jobs order s =
     (case run_jobs func jobs order (replicate (length jobs) None) s of
        (futures, s') \<Rightarrow> (collect_results futures, s'))"

text \<open>The sequential map the dispatcher is compared with: \<^verbatim>\<open>[func(**j) for j in jobs]\<close>.\<close>

fun run_sequential ::
  "('j \<Rightarrow> 's \<Rightarrow> (error + 'r) \<times> 's) \<Rightarrow> 'j list \<Rightarrow> 's \<Rightarrow> (error + 'r list) \<times> 's" where
  "run_sequential func [] s = (Inr [], s)"
| "run_sequential func (j # js) s =
     (case func j s of
        (Inl e, s') \<Rightarrow> (Inl e, s')
      | (Inr r, s') \<Rightarrow>
          (case run_sequential func js s' of
             (Inl e, s'') \<Rightarrow> (Inl e, s'')
           | (Inr rs, s'') \<Rightarrow> (Inr (r # rs), s'')))"

section \<open>The queries of a chapter (lines 255-263 of \<^verbatim>\<open>process_chapter\<close>)\<close>

text \<open>The five instruction texts of lines 208-253 are fixed strings; they are taken as given.\<close>

record instructions =
  precis_prompt :: string
  commentary_prompt :: string
  annotation_prompt :: string
  addition_prompt :: string
  illustration_prompt :: string

record job =
  job_args :: completion_args
  job_cache_key :: "string option"

definition prompt_prefix :: "string \<Rightarrow> string \<Rightarrow> string \<Rightarrow> string" where
  "prompt_prefix title author chapter_text =
     ''The following is a chapter from '' @ title @ '' by '' @ author @ '':\<newline>\<newline>''
       @ chapter_text @ ''\<newline>\<newline>INSTRUCTIONS: ''"

definition prompts :: "instructions \<Rightarrow> string \<Rightarrow> string \<Rightarrow> string \<Rightarrow> string \<Rightarrow> job list" where
  "prompts instr stem title author chapter_text =
     (let pre = prompt_prefix title author chapter_text in
      [\<lparr>job_args = \<lparr>arg_prompt = pre @ precis_prompt instr, arg_tool = None,
                    arg_temperature = None, arg_n = None\<rparr>,
        job_cache_key = Some (''precis_'' @ stem)\<rparr>,
       \<lparr>job_args = \<lparr>arg_prompt = pre @ commentary_prompt instr, arg_tool = Some dialogue_tool,
                    arg_temperature = Some (11 / 10), arg_n = None\<rparr>,
        job_cache_key = Some (''commentary11_'' @ stem)\<rparr>,
       \<lparr>job_args = \<lparr>arg_prompt = pre @ annotation_prompt instr, arg_tool = Some annotate_tool,
                    arg_temperature = Some (12 / 10), arg_n = None\<rparr>,
        job_cache_key = Some (''annotation19_'' @ stem)\<rparr>,
       \<lparr>job_args = \<lparr>arg_prompt = pre @ addition_prompt instr, arg_tool = Some addition_tool,
                    arg_temperature = Some (14 / 10), arg_n = Some 5\<rparr>,
        job_cache_key = Some (''addition9_'' @ stem)\<rparr>,
       \<lparr>job_args = \<lparr>arg_prompt = pre @ illustration_prompt instr,
                    arg_tool = Some illustration_tool,
                    arg_temperature = None, arg_n = None\<rparr>,
        job_cache_key = Some (''illustration5_'' @ stem)\<rparr>])"

text \<open>\<^verbatim>\<open>run_threaded(get_completion_text, prompts)\<close>, with the decorated function.\<close>

definition process_chapter_queries ::
  "backend \<Rightarrow> instructions \<Rightarrow> string \<Rightarrow> string \<Rightarrow> string \<Rightarrow> string \<Rightarrow> nat list
     \<Rightarrow> remote system \<Rightarrow> (error + pyval list) option \<times> remote system" where
  "process_chapter_queries chat instr stem title author chapter_text order s =
     run_threaded (\<lambda>j. cached (get_completion_text chat) (job_args j) (job_cache_key j))
       (prompts instr stem title author chapter_text) order s"

section \<open>The document (lines 327-334 and 392-393 of \<^verbatim>\<open>process_epub\<close>)\<close>

text \<open>
  \<^verbatim>\<open>process_chapter\<close> returns \<^verbatim>\<open>None\<close> for a chapter without a section and otherwise a dict
  with the manifest line of its illustration; \<^verbatim>\<open>process_epub\<close> reads
  \<^verbatim>\<open>chapter['manifest']\<close> of every result. The work on files (unpacking, style sheet, table
  of contents, cover, packing) is left out; what is kept is what becomes of the results of
  the chapters. The processing of one chapter is the parameter \<open>process_chapter\<close>.
\<close>

fun manifest_items :: "string option list \<Rightarrow> error + string list" where
  "manifest_items [] = Inr []"
| "manifest_items (None # chapters) = Inl TypeError"
| "manifest_items (Some m # chapters) =
     (case manifest_items chapters of Inl e \<Rightarrow> Inl e | Inr ms \<Rightarrow> Inr (m # ms))"

definition process_epub ::
  "('j \<Rightarrow> 's \<Rightarrow> (error + string option) \<times> 's) \<Rightarrow> 'j list \<Rightarrow> nat list \<Rightarrow> 's
     \<Rightarrow> (error + string list) option \<times> 's" where
  "process_epub process_chapter jobs order s =
     (case run_threaded process_chapter jobs order s of
        (None, s') \<Rightarrow> (None, s')
      | (Some (Inl e), s') \<Rightarrow> (Some (Inl e), s')
      | (Some (Inr chapter_results), s') \<Rightarrow> (Some (manifest_items chapter_results), s'))"

section \<open>The footnote step in the words of the specification\<close>

text \<open>
  Section 4.4, step 1, and the footnote-numbering property of section 8, written out
  independently of the code above, to be compared with it. Given a list of numbers to hand
  out, the annotation texts are gone through in order: a text whose anchor (the text with
  trailing periods stripped) is a literal substring of the current markup takes the next
  number, and the first occurrence of the anchor is followed by a reference marker that shows
  this number; a text whose anchor is absent takes no number. The result is the markup and
  the numbers left over, or \<open>None\<close> when an anchor is found and no number is left.
\<close>

text \<open>The marker, as literal markup around the index of the annotation and the number.\<close>

definition spec_reference_marker :: "string \<Rightarrow> nat \<Rightarrow> nat \<Rightarrow> string" where
  \<open>spec_reference_marker stem i n =
     ''<a class="noteref Publisher" epub:type="noteref" href="#'' @ stem @ ''-note''
       @ str_nat i @ ''"><sup>'' @ str_nat n @ ''</sup></a>''\<close>

text \<open>The marker goes right behind the first occurrence of the anchor.\<close>

primrec spec_insert_marker :: "string \<Rightarrow> string \<Rightarrow> string \<Rightarrow> string" where
  "spec_insert_marker anchor marker [] = (if anchor = [] then marker else [])"
| "spec_insert_marker anchor marker (c # cs) =
     (if prefix anchor (c # cs) then anchor @ marker @ drop (length anchor) (c # cs)
      else c # spec_insert_marker anchor marker cs)"

fun spec_numbered_markup ::
  "string \<Rightarrow> nat \<Rightarrow> nat list \<Rightarrow> string list \<Rightarrow> string \<Rightarrow> (string \<times> nat list) option" where
  "spec_numbered_markup stem i numbers [] xml = Some (xml, numbers)"
| "spec_numbered_markup stem i numbers (t # texts) xml =
     (let anchor = rstrip t ''.'' in
      if sublist anchor xml then
        (case numbers of
           [] \<Rightarrow> None
         | n # numbers' \<Rightarrow>
             spec_numbered_markup stem (Suc i) numbers' texts
               (spec_insert_marker anchor (spec_reference_marker stem i n) xml))
      else spec_numbered_markup stem (Suc i) numbers texts xml)"

text \<open>The number that a string of decimal digits denotes, to read \<open>str_nat\<close> back.\<close>

definition decimal_value :: "string \<Rightarrow> nat" where
  "decimal_value s = foldl (\<lambda>v c. 10 * v + (of_char c - 48)) 0 s"

section \<open>Sample inputs\<close>

text \<open>A section with seven paragraphs, two of them inside a block quote.\<close>

definition sample_section :: xml where
  "sample_section =
     Element ''section''
       [Element ''header'' [Element ''h2'' []],
        Element ''p'' [], Element ''p'' [],
        Element ''blockquote'' [Element ''p'' [], Element ''p'' []],
        Element ''p'' [], Element ''p'' [], Element ''p'' []]"

text \<open>
  A backend that answers every request. To the annotation request it answers with an empty
  list of items as long as fewer than five requests came before, and with one item after
  that.
\<close>

definition sample_backend :: backend where
  "sample_backend args k =
     (case arg_tool args of
        None \<Rightarrow> Inr [PStr ''Rain; more rain.'']
      | Some t \<Rightarrow>
          if t = dialogue_tool then
            Inr [PDict [(''items'',
                   PList [PDict [(''speaker'', PStr ''SassBot''), (''line'', PStr ''Wet.'')]])]]
          else if t = annotate_tool then
            (if k < 5 then Inr [PDict [(''items'', PList [])]]
             else Inr [PDict [(''items'',
                         PList [PDict [(''text'', PStr ''rained''),
                                       (''annotation'', PStr ''As it will.'')]])]])
          else if t = addition_tool then
            Inr (replicate 5 (PDict [(''existing_sentence'', PStr ''It rained.''),
                                      (''new_sentence'', PStr ''It poured.'')]))
          else
            Inr [PDict [(''existing_sentence'', PStr ''It rained.''),
                        (''image_description'', PStr ''Rain on a roof'')]])"

definition sample_instructions :: instructions where
  "sample_instructions =
     \<lparr>precis_prompt = ''Write a precis.'', commentary_prompt = ''Roleplay a scene.'',
      annotation_prompt = ''Provide annotations.'', addition_prompt = ''Propose a sentence.'',
      illustration_prompt = ''Extract a sentence.''\<rparr>"

text \<open>The queries of the chapter \<^verbatim>\<open>chapter-1\<close>, the workers taking the jobs in the order
  of submission.\<close>

definition sample_queries ::
  "remote system \<Rightarrow> (error + pyval list) option \<times> remote system" where
  "sample_queries =
     process_chapter_queries sample_backend sample_instructions
       ''chapter-1'' ''Middlemarch'' ''George Eliot'' ''It rained.'' [0, 1, 2, 3, 4]"

section \<open>Invariants used in the proofs\<close>

text \<open>Of the footnote loop: the counter is one more than the number of footnotes appended,
  and the numbers rendered so far are all the numbers below it.\<close>

definition footnotes_ok :: "merge_state \<Rightarrow> bool" where
  "footnotes_ok st \<longleftrightarrow>
     footnote_number st = Suc (length (section_append st)) \<and>
     noterefs st = [1..<footnote_number st]"

text \<open>Of the dispatcher: there is one future per job, and a completed future holds what its
  own job returned in the state the job ran in.\<close>

definition produced ::
  "('j \<Rightarrow> 's \<Rightarrow> (error + 'r) \<times> 's) \<Rightarrow> 'j list \<Rightarrow> (error + 'r) option list \<Rightarrow> bool" where
  "produced func jobs futures \<longleftrightarrow>
     length futures = length jobs \<and>
     (\<forall>k<length jobs.
        futures ! k = None \<or> (\<exists>s. futures ! k = Some (fst (func (jobs ! k) s))))"

section \<open>Properties of the string operations\<close>

text \<open>\<^verbatim>\<open>sub in s\<close> is the literal-substring relation.\<close>

lemma str_find_None_iff: "str_find s sub = None \<longleftrightarrow> \<not> sublist sub s"
  by (induction s) (auto simp: sublist_Cons_right)

lemma str_in_iff_sublist: "str_in sub s \<longleftrightarrow> sublist sub s"
  by (simp add: str_in_def str_find_None_iff)

lemma replace1_absent: "\<not> sublist old s \<Longrightarrow> replace1 s old new = s"
  using str_find_None_iff [of s old] by (simp add: replace1_def)

text \<open>\<open>str_nat\<close> writes the decimal numeral of a number: reading it back gives the number.\<close>

lemma digit_char: "n < 10 \<Longrightarrow> of_char (''0123456789'' ! n) = 48 + n"
proof -
  assume "n < 10"
  then have "n = 0 \<or> n = 1 \<or> n = 2 \<or> n = 3 \<or> n = 4 \<or> n = 5 \<or> n = 6 \<or> n = 7 \<or> n = 8 \<or> n = 9"
    by arith
  then show ?thesis by (elim disjE) simp_all
qed

lemma decimal_value_snoc:
  "decimal_value (s @ [c]) = 10 * decimal_value s + (of_char c - 48)"
  by (simp add: decimal_value_def)

lemma decimal_value_str_nat: "decimal_value (str_nat n) = n"
proof (induction n rule: str_nat.induct)
  case (1 n)
  show ?case
  proof (cases "n < 10")
    case True
    then show ?thesis
      using digit_char [of n] by (simp add: str_nat.simps [of n] decimal_value_def)
  next
    case False
    with 1 have "decimal_value (str_nat (n div 10)) = n div 10" by simp
    moreover have "of_char (''0123456789'' ! (n mod 10)) = 48 + n mod 10"
      by (rule digit_char) simp
    ultimately show ?thesis
      using False by (simp add: str_nat.simps [of n] decimal_value_snoc)
  qed
qed

text \<open>\<^verbatim>\<open>s.replace(anchor, anchor + marker, 1)\<close> puts the marker behind the first occurrence
  of the anchor, as the specification words it; and in general \<^verbatim>\<open>s.replace(old, new, 1)\<close>
  replaces the occurrence of \<^verbatim>\<open>old\<close> with the shortest text before it.\<close>

lemma replace1_spec_insert:
  "replace1 s anchor (anchor @ marker) = spec_insert_marker anchor marker s"
proof (induction s)
  case Nil
  then show ?case by (simp add: replace1_def)
next
  case (Cons c cs)
  show ?case
  proof (cases "prefix anchor (c # cs)")
    case True
    then show ?thesis by (simp add: replace1_def)
  next
    case False
    with Cons show ?thesis
      by (cases "str_find cs anchor") (simp_all add: replace1_def)
  qed
qed

lemma str_find_Some:
  "str_find s old = Some i \<Longrightarrow>
   s = take i s @ old @ drop (i + length old) s \<and>
   (\<forall>pre post. s = pre @ old @ post \<longrightarrow> i \<le> length pre)"
proof (induction s arbitrary: i)
  case Nil
  then show ?case by (simp split: if_splits)
next
  case (Cons c cs)
  show ?case
  proof (cases "prefix old (c # cs)")
    case True
    with Cons.prems have "i = 0" by simp
    with True show ?thesis by (auto simp: prefix_def)
  next
    case False
    with Cons.prems obtain j where j: "str_find cs old = Some j" "i = Suc j" by auto
    from Cons.IH [OF j(1)] have split: "cs = take j cs @ old @ drop (j + length old) cs"
      and least: "\<forall>pre post. cs = pre @ old @ post \<longrightarrow> j \<le> length pre" by auto
    have "i \<le> length pre" if "c # cs = pre @ old @ post" for pre post
    proof (cases pre)
      case Nil
      with that have "prefix old (c # cs)" by (simp add: prefix_def)
      with False show ?thesis by simp
    next
      case (Cons p pre')
      with that have "cs = pre' @ old @ post" by simp
      with least have "j \<le> length pre'" by blast
      with Cons j show ?thesis by simp
    qed
    moreover have "c # cs = take i (c # cs) @ old @ drop (i + length old) (c # cs)"
      using split j by simp
    ultimately show ?thesis by blast
  qed
qed

lemma replace1_first_occurrence:
  assumes "sublist old s"
  shows "\<exists>pre post. s = pre @ old @ post \<and> replace1 s old new = pre @ new @ post \<and>
           (\<forall>pre' post'. s = pre' @ old @ post' \<longrightarrow> length pre \<le> length pre')"
proof -
  from assms obtain i where i: "str_find s old = Some i"
    using str_find_None_iff [of s old] by auto
  from str_find_Some [OF i] have
    "s = take i s @ old @ drop (i + length old) s"
    "\<forall>pre post. s = pre @ old @ post \<longrightarrow> i \<le> length pre" by auto
  moreover have "length (take i s) = i"
  proof -
    have "i \<le> length s"
    proof (rule ccontr)
      assume "\<not> i \<le> length s"
      then have "take i s = s" "drop (i + length old) s = []" by simp_all
      with \<open>s = take i s @ old @ drop (i + length old) s\<close> have "s = s @ old" by simp
      then have "old = []" by simp
      with \<open>\<forall>pre post. s = pre @ old @ post \<longrightarrow> i \<le> length pre\<close>
      have "i \<le> length s" by (metis append_Nil2)
      with \<open>\<not> i \<le> length s\<close> show False by simp
    qed
    then show ?thesis by simp
  qed
  moreover have "replace1 s old new = take i s @ new @ drop (i + length old) s"
    using i by (simp add: replace1_def)
  ultimately show ?thesis by metis
qed


section \<open>Properties of the footnote step\<close>

text \<open>An annotation that has no \<^verbatim>\<open>text\<close> but has an \<^verbatim>\<open>annotation\<close> is the one case that
  line 273 skips.\<close>

lemma annotate_step_skips:
  "''text'' \<notin> dom a \<Longrightarrow> ''annotation'' \<in> dom a \<Longrightarrow> annotate_step stem ws i a st = Inr st"
  by (simp add: annotate_step_def)

text \<open>
  \<^bold>\<open>Claim C1.\<close> Footnote insertion is attempted only for annotation results that have both a
  \<^verbatim>\<open>text\<close> and an \<^verbatim>\<open>annotation\<close> field; a result that misses either field is skipped
  without error and without change to the markup.

  The code does not do this. An annotation with a \<^verbatim>\<open>text\<close> that occurs in the markup and no
  \<^verbatim>\<open>annotation\<close> passes the test of line 273 and raises \<^verbatim>\<open>KeyError('annotation')\<close> at line
  281; an annotation with neither field passes it too and raises \<^verbatim>\<open>KeyError('text')\<close> at line
  275.
\<close>

theorem annotation_missing_field_raises:
  "process_annotations ''chapter-1'' [] [[''text'' \<mapsto> ''Dorothea'']]
     ''<p>Miss Dorothea Brooke</p>'' = Inl (KeyError ''annotation'') \<and>
   process_annotations ''chapter-1'' [] [Map.empty]
     ''<p>Miss Dorothea Brooke</p>'' = Inl (KeyError ''text'')"
  by code_simp

text \<open>What a step does for an annotation with both fields whose anchor is found: the number
  rendered into the marker is the counter, and it is the number that \<open>noterefs\<close> logs.\<close>

lemma annotate_step_found:
  assumes "annotation ''text'' = Some t" and "annotation ''annotation'' = Some note"
    and "sublist (rstrip t ''.'') (section_xml st)"
  shows "annotate_step stem ws i annotation st =
           Inr (st\<lparr>section_xml :=
                     replace1 (section_xml st) (rstrip t ''.'')
                       (rstrip t ''.'' @ noteref_marker ''Publisher'' (stem @ ''-note'' @ str_nat i)
                                         (footnote_number st)),
                   footnote_number := footnote_number st + 1,
                   section_append := section_append st
                     @ [footnote_aside ws (stem @ ''-note'' @ str_nat i) ''Publisher'' note],
                   noterefs := noterefs st @ [footnote_number st]\<rparr>)"
  using assms by (auto simp: annotate_step_def Let_def str_in_iff_sublist)

text \<open>The invariant \<open>footnotes_ok\<close> holds at the start and is kept by every step.\<close>

lemma merge_init_ok: "footnotes_ok (merge_init xml)"
  by (simp add: footnotes_ok_def merge_init_def)

lemma annotate_step_ok:
  assumes "annotate_step stem ws i a st = Inr st'" and "footnotes_ok st"
  shows "footnotes_ok st'"
  using assms
  by (auto simp: annotate_step_def footnotes_ok_def Let_def split: if_splits option.splits)

lemma annotate_loop_ok:
  "annotate_loop stem ws i anns st = Inr st' \<Longrightarrow> footnotes_ok st \<Longrightarrow> footnotes_ok st'"
proof (induction anns arbitrary: i st)
  case Nil
  then show ?case by simp
next
  case (Cons a anns)
  then show ?case
    by (auto split: sum.splits dest: annotate_step_ok)
qed

lemma process_annotations_ok:
  "process_annotations stem ws anns xml = Inr st \<Longrightarrow> footnotes_ok st"
  by (auto simp: process_annotations_def merge_init_ok split: if_splits
           dest: annotate_loop_ok [OF _ merge_init_ok])

lemma annotate_step_total:
  assumes "''text'' \<in> dom a" and "''annotation'' \<in> dom a"
  shows "\<exists>st'. annotate_step stem ws i a st = Inr st'"
  using assms
  by (auto simp: annotate_step_def Let_def split: option.splits)

lemma annotate_loop_total:
  "\<forall>a\<in>set anns. ''text'' \<in> dom a \<and> ''annotation'' \<in> dom a \<Longrightarrow>
   \<exists>st'. annotate_loop stem ws i anns st = Inr st'"
proof (induction anns arbitrary: i st)
  case Nil
  then show ?case by simp
next
  case (Cons a anns)
  then obtain st1 where "annotate_step stem ws i a st = Inr st1"
    using annotate_step_total [of a stem ws i st] by auto
  with Cons show ?case by simp
qed

text \<open>The code's marker is the marker of the specification, and the counter never goes
  down; so the markup the loop produces is the markup of the specification, with the numbers
  from the counter at the start up to the counter at the end handed out.\<close>

lemma marker_spec:
  "noteref_marker ''Publisher'' (stem @ ''-note'' @ str_nat i) n = spec_reference_marker stem i n"
  by (simp add: noteref_marker_def spec_reference_marker_def)

lemma annotate_step_number:
  "annotate_step stem ws i a st = Inr st' \<Longrightarrow> footnote_number st \<le> footnote_number st'"
  by (auto simp: annotate_step_def Let_def split: if_splits option.splits)

lemma annotate_loop_number:
  "annotate_loop stem ws i anns st = Inr st' \<Longrightarrow> footnote_number st \<le> footnote_number st'"
proof (induction anns arbitrary: i st)
  case Nil
  then show ?case by simp
next
  case (Cons a anns)
  then obtain st1 where s1: "annotate_step stem ws i a st = Inr st1"
    and l1: "annotate_loop stem ws (Suc i) anns st1 = Inr st'"
    by (auto split: sum.splits)
  from annotate_step_number [OF s1] Cons.IH [OF l1] show ?case by simp
qed

lemma annotate_loop_markup:
  assumes "\<forall>a\<in>set anns. ''text'' \<in> dom a \<and> ''annotation'' \<in> dom a"
    and "annotate_loop stem ws i anns st = Inr st'"
  shows "spec_numbered_markup stem i [footnote_number st..<footnote_number st']
           (map (\<lambda>a. the (a ''text'')) anns) (section_xml st) = Some (section_xml st', [])"
  using assms
proof (induction anns arbitrary: i st)
  case Nil
  then show ?case by simp
next
  case (Cons a anns)
  from Cons.prems(1) obtain t remark where t: "a ''text'' = Some t"
    and remark: "a ''annotation'' = Some remark" by auto
  let ?anchor = "rstrip t ''.''"
  from Cons.prems(2) obtain st1 where s1: "annotate_step stem ws i a st = Inr st1"
    and l1: "annotate_loop stem ws (Suc i) anns st1 = Inr st'"
    by (auto split: sum.splits)
  from Cons.prems(1) have wf: "\<forall>a\<in>set anns. ''text'' \<in> dom a \<and> ''annotation'' \<in> dom a"
    by simp
  note IH = Cons.IH [OF wf l1]
  show ?case
  proof (cases "sublist ?anchor (section_xml st)")
    case True
    from annotate_step_found [OF t remark True, of stem ws i] s1
    have xml1: "section_xml st1 =
        spec_insert_marker ?anchor (spec_reference_marker stem i (footnote_number st)) (section_xml st)"
      and n1: "footnote_number st1 = Suc (footnote_number st)"
      by (auto simp: noteref_marker_def spec_reference_marker_def replace1_spec_insert)
    from annotate_loop_number [OF l1] n1 have "footnote_number st < footnote_number st'"
      by simp
    then have "[footnote_number st..<footnote_number st']
                 = footnote_number st # [footnote_number st1..<footnote_number st']"
      using n1 by (simp add: upt_conv_Cons)
    with IH True t xml1 show ?thesis by simp
  next
    case False
    with t have "annotate_step stem ws i a st = Inr st"
      by (auto simp: annotate_step_def Let_def str_in_iff_sublist)
    with s1 have "st1 = st" by simp
    with IH False t show ?thesis by simp
  qed
qed

text \<open>
  \<^bold>\<open>Claim C4.\<close> The reference numbers inserted into the markup are sequential from 1 over the
  anchors that were found: when \<open>k\<close> anchors are found, the numbers are 1 to \<open>k\<close> in order,
  and an annotation whose anchor is not found leaves no gap.

  One footnote block is appended to \<^verbatim>\<open>section_append\<close> for each anchor found, so \<open>k\<close> is the
  length of that list. For annotations that have both fields the step returns, and the
  markup it returns is the markup of the specification for the numbers \<open>[1..<k + 1]\<close>: each
  anchor found is followed by a marker that shows the next of these numbers between
  \<^verbatim>\<open><sup>\<close> and \<^verbatim>\<open></sup>\<close>, in the order of the annotations, and all \<open>k\<close> numbers are used. The
  numbers logged in \<open>noterefs\<close> are the same list.
\<close>

theorem footnote_numbers_sequential:
  assumes "\<forall>a\<in>set annotations. ''text'' \<in> dom a \<and> ''annotation'' \<in> dom a"
  shows "\<exists>st. process_annotations stem whitespace annotations xml = Inr st \<and>
              noterefs st = [1..<Suc (length (section_append st))] \<and>
              spec_numbered_markup stem 0 [1..<Suc (length (section_append st))]
                (map (\<lambda>a. the (a ''text'')) annotations) xml = Some (section_xml st, [])"
proof -
  have "\<exists>st. process_annotations stem whitespace annotations xml = Inr st"
    using annotate_loop_total [OF assms, of stem whitespace 0 "merge_init xml"]
    by (simp add: process_annotations_def)
  then obtain st where st: "process_annotations stem whitespace annotations xml = Inr st" ..
  from process_annotations_ok [OF st]
  have k: "footnote_number st = Suc (length (section_append st))"
    and seq: "noterefs st = [1..<Suc (length (section_append st))]"
    by (simp_all add: footnotes_ok_def)
  have "spec_numbered_markup stem 0 [1..<footnote_number st]
          (map (\<lambda>a. the (a ''text'')) annotations) xml = Some (section_xml st, [])"
  proof (cases "annotations = []")
    case True
    with st have "st = merge_init xml" by (simp add: process_annotations_def)
    with True show ?thesis by (simp add: merge_init_def)
  next
    case False
    with st have "annotate_loop stem whitespace 0 annotations (merge_init xml) = Inr st"
      by (simp add: process_annotations_def)
    from annotate_loop_markup [OF assms this] show ?thesis
      by (simp add: merge_init_def)
  qed
  with st seq k show ?thesis by simp
qed

text \<open>Three annotations, of which the first and the third are found: the markers in the
  markup show 1 and 2, on the notes 0 and 2.\<close>

theorem footnote_numbers_sequential_witness:
  \<open>list_all (\<lambda>a. ''text'' \<in> dom a \<and> ''annotation'' \<in> dom a)
     [[''text'' \<mapsto> ''alpha'', ''annotation'' \<mapsto> ''first''],
      [''text'' \<mapsto> ''beta'', ''annotation'' \<mapsto> ''second''],
      [''text'' \<mapsto> ''gamma'', ''annotation'' \<mapsto> ''third'']] \<and>
   (\<exists>st. process_annotations ''ch'' []
           [[''text'' \<mapsto> ''alpha'', ''annotation'' \<mapsto> ''first''],
            [''text'' \<mapsto> ''beta'', ''annotation'' \<mapsto> ''second''],
            [''text'' \<mapsto> ''gamma'', ''annotation'' \<mapsto> ''third'']] ''alpha gamma'' = Inr st \<and>
         length (section_append st) = 2 \<and> noterefs st = [1, 2] \<and>
         section_xml st =
           ''alpha<a class="noteref Publisher" epub:type="noteref" href="#ch-note0">''
           @ ''<sup>1</sup></a> gamma''
           @ ''<a class="noteref Publisher" epub:type="noteref" href="#ch-note2">''
           @ ''<sup>2</sup></a>'' \<and>
         spec_numbered_markup ''ch'' 0 [1, 2] [''alpha'', ''beta'', ''gamma''] ''alpha gamma''
           = Some (section_xml st, []))\<close>
proof -
  let ?anns = "[[''text'' \<mapsto> ''alpha'', ''annotation'' \<mapsto> ''first''],
                [''text'' \<mapsto> ''beta'', ''annotation'' \<mapsto> ''second''],
                [''text'' \<mapsto> ''gamma'', ''annotation'' \<mapsto> ''third'']] :: pydict list"
  have wf: "\<forall>a\<in>set ?anns. ''text'' \<in> dom a \<and> ''annotation'' \<in> dom a"
    by simp
  from footnote_numbers_sequential [OF wf, of "''ch''" "[]" "''alpha gamma''"]
  obtain st where st: "process_annotations ''ch'' [] ?anns ''alpha gamma'' = Inr st"
    and seq: "noterefs st = [1..<Suc (length (section_append st))]"
    and spec: "spec_numbered_markup ''ch'' 0 [1..<Suc (length (section_append st))]
                 (map (\<lambda>a. the (a ''text'')) ?anns) ''alpha gamma'' = Some (section_xml st, [])"
    by blast
  have "length (section_append (projr (process_annotations ''ch'' [] ?anns ''alpha gamma''))) = 2"
    by code_simp
  with st have two: "length (section_append st) = 2" by simp
  have \<open>section_xml (projr (process_annotations ''ch'' [] ?anns ''alpha gamma'')) =
           ''alpha<a class="noteref Publisher" epub:type="noteref" href="#ch-note0">''
           @ ''<sup>1</sup></a> gamma''
           @ ''<a class="noteref Publisher" epub:type="noteref" href="#ch-note2">''
           @ ''<sup>2</sup></a>''\<close>
    by code_simp
  with st have xml: \<open>section_xml st =
           ''alpha<a class="noteref Publisher" epub:type="noteref" href="#ch-note0">''
           @ ''<sup>1</sup></a> gamma''
           @ ''<a class="noteref Publisher" epub:type="noteref" href="#ch-note2">''
           @ ''<sup>2</sup></a>''\<close> by simp
  have up: "[1..<Suc 2] = [1, 2::nat]" by (simp add: upt_rec)
  from seq two up have refs: "noterefs st = [1, 2]" by simp
  have texts: "map (\<lambda>a. the (a ''text'')) ?anns = [''alpha'', ''beta'', ''gamma'']"
    by simp
  from spec
  have sp: "spec_numbered_markup ''ch'' 0 [1, 2] [''alpha'', ''beta'', ''gamma''] ''alpha gamma''
              = Some (section_xml st, [])"
    unfolding two up texts .
  have "list_all (\<lambda>a. ''text'' \<in> dom a \<and> ''annotation'' \<in> dom a) ?anns"
    by simp
  with st two refs xml sp show ?thesis by blast
qed

section \<open>Properties of the sentence addition\<close>

lemma add_sentence_skip:
  "\<forall>c\<in>set skipped. \<exists>s. c ''existing_sentence'' = Some s \<and> \<not> sublist s (section_xml st) \<Longrightarrow>
   add_sentence ws (skipped @ rest) st = add_sentence ws rest st"
  by (induction skipped) (auto simp: str_in_iff_sublist)

text \<open>When no candidate has its anchor in the markup, nothing is inserted.\<close>

lemma add_sentence_no_match:
  "\<forall>c\<in>set candidates. \<exists>s. c ''existing_sentence'' = Some s \<and> \<not> sublist s (section_xml st) \<Longrightarrow>
   add_sentence ws candidates st = Inr st"
  using add_sentence_skip [of candidates st ws "[]"] by simp

text \<open>
  \<^bold>\<open>Claim C5.\<close> The addition candidates are scanned in order; exactly the first candidate
  whose anchor sentence is a literal substring of the current markup is applied, and the
  scan stops there: at most one sentence is inserted, and a later candidate that matches is
  never applied.

  The candidates before the first match are \<open>skipped\<close>, the match is \<open>c\<close>, and \<open>later\<close> is
  whatever follows: the result does not depend on it.
\<close>

theorem first_matching_addition_only:
  assumes "\<forall>c\<in>set skipped. \<exists>s. c ''existing_sentence'' = Some s \<and> \<not> sublist s (section_xml st)"
    and "c ''existing_sentence'' = Some existing"
    and "sublist existing (section_xml st)"
    and "c ''new_sentence'' = Some new"
  shows "add_sentence whitespace (skipped @ c # later) st =
           Inr (st\<lparr>section_xml := replace1 (section_xml st) existing (existing @ '' '' @ new),
                   section_append := section_append st @ [addition_box whitespace new]\<rparr>)"
proof -
  have "add_sentence whitespace (skipped @ c # later) st = add_sentence whitespace (c # later) st"
    using assms(1) by (rule add_sentence_skip)
  also have "\<dots> = Inr (st\<lparr>section_xml := replace1 (section_xml st) existing (existing @ '' '' @ new),
                   section_append := section_append st @ [addition_box whitespace new]\<rparr>)"
    using assms(2-4) by (simp add: str_in_iff_sublist)
  finally show ?thesis .
qed

text \<open>Five candidates; the third is the first that matches, the fifth matches too.\<close>

theorem first_matching_addition_only_witness:
  "list_all (\<lambda>c. \<exists>s. c ''existing_sentence'' = Some s \<and>
                     \<not> sublist s (section_xml (merge_init ''It rained. It snowed.'')))
     [[''existing_sentence'' \<mapsto> ''It hailed.'', ''new_sentence'' \<mapsto> ''Hard.''],
      [''existing_sentence'' \<mapsto> ''It thawed.'', ''new_sentence'' \<mapsto> ''Late.'']] \<and>
   [''existing_sentence'' \<mapsto> ''It rained.'', ''new_sentence'' \<mapsto> ''It poured.'']
      ''existing_sentence'' = Some ''It rained.'' \<and>
   sublist ''It rained.'' (section_xml (merge_init ''It rained. It snowed.'')) \<and>
   [''existing_sentence'' \<mapsto> ''It rained.'', ''new_sentence'' \<mapsto> ''It poured.'']
      ''new_sentence'' = Some ''It poured.'' \<and>
   add_sentence []
     ([[''existing_sentence'' \<mapsto> ''It hailed.'', ''new_sentence'' \<mapsto> ''Hard.''],
       [''existing_sentence'' \<mapsto> ''It thawed.'', ''new_sentence'' \<mapsto> ''Late.'']]
      @ [''existing_sentence'' \<mapsto> ''It rained.'', ''new_sentence'' \<mapsto> ''It poured.'']
      # [[''existing_sentence'' \<mapsto> ''It froze.'', ''new_sentence'' \<mapsto> ''Fast.''],
         [''existing_sentence'' \<mapsto> ''It snowed.'', ''new_sentence'' \<mapsto> ''Deep.'']])
     (merge_init ''It rained. It snowed.'')
   = Inr \<lparr>section_xml = ''It rained. It poured. It snowed.'', footnote_number = 1,
          section_append = [addition_box [] ''It poured.''], noterefs = []\<rparr>"
proof -
  let ?st = "merge_init ''It rained. It snowed.''"
  let ?skipped = "[[''existing_sentence'' \<mapsto> ''It hailed.'', ''new_sentence'' \<mapsto> ''Hard.''],
                   [''existing_sentence'' \<mapsto> ''It thawed.'', ''new_sentence'' \<mapsto> ''Late.'']]
                  :: pydict list"
  let ?c = "[''existing_sentence'' \<mapsto> ''It rained.'', ''new_sentence'' \<mapsto> ''It poured.'']
            :: pydict"
  have xml: "section_xml ?st = ''It rained. It snowed.''"
    by (simp add: merge_init_def)
  have "\<not> str_in ''It hailed.'' ''It rained. It snowed.''"
       "\<not> str_in ''It thawed.'' ''It rained. It snowed.''"
       "str_in ''It rained.'' ''It rained. It snowed.''"
    by code_simp+
  then have sub: "\<not> sublist ''It hailed.'' ''It rained. It snowed.''"
       "\<not> sublist ''It thawed.'' ''It rained. It snowed.''"
       "sublist ''It rained.'' ''It rained. It snowed.''"
    by (simp_all add: str_in_iff_sublist)
  have a: "\<forall>c\<in>set ?skipped. \<exists>s. c ''existing_sentence'' = Some s \<and> \<not> sublist s (section_xml ?st)"
    using sub xml by simp
  have b: "?c ''existing_sentence'' = Some ''It rained.''" by simp
  have c: "sublist ''It rained.'' (section_xml ?st)" using sub xml by simp
  have d: "?c ''new_sentence'' = Some ''It poured.''" by simp
  have r: "replace1 ''It rained. It snowed.'' ''It rained.'' (''It rained.'' @ '' '' @ ''It poured.'')
             = ''It rained. It poured. It snowed.''"
    by code_simp
  let ?later = "[[''existing_sentence'' \<mapsto> ''It froze.'', ''new_sentence'' \<mapsto> ''Fast.''],
                 [''existing_sentence'' \<mapsto> ''It snowed.'', ''new_sentence'' \<mapsto> ''Deep.'']]
                :: pydict list"
  have upd: "?st\<lparr>section_xml := replace1 (section_xml ?st) ''It rained.''
                                  (''It rained.'' @ '' '' @ ''It poured.''),
                 section_append := section_append ?st @ [addition_box [] ''It poured.'']\<rparr>
             = \<lparr>section_xml = ''It rained. It poured. It snowed.'', footnote_number = 1,
                section_append = [addition_box [] ''It poured.''], noterefs = []\<rparr>"
    unfolding xml r by (simp add: merge_init_def)
  have "add_sentence [] (?skipped @ ?c # ?later) ?st
        = Inr \<lparr>section_xml = ''It rained. It poured. It snowed.'', footnote_number = 1,
               section_append = [addition_box [] ''It poured.''], noterefs = []\<rparr>"
    using first_matching_addition_only [OF a b c d, of "[]" ?later] unfolding upd .
  moreover have "list_all (\<lambda>c. \<exists>s. c ''existing_sentence'' = Some s \<and>
                     \<not> sublist s (section_xml ?st)) ?skipped"
    using a by (simp add: list_all_iff)
  ultimately show ?thesis using b c d by blast
qed

section \<open>Anchors that are not found\<close>

text \<open>
  \<^bold>\<open>Claim C3, as stated.\<close> An annotation or addition result whose anchor text does not occur verbatim
  as a literal substring of the chapter markup leaves the markup unchanged and raises no
  error.

  As stated this fails for an annotation: the code searches for the anchor text with its
  trailing periods removed (line 275), so the anchor \<^verbatim>\<open>foo.\<close>, which does not occur in the
  markup \<^verbatim>\<open>foo bar\<close>, is found as \<^verbatim>\<open>foo\<close> and gets a footnote reference.
\<close>

theorem stripped_anchor_found_counterexample:
  \<open>\<not> sublist ''foo.'' ''foo bar'' \<and>
   map_sum id section_xml
     (process_annotations ''ch'' []
        [[''text'' \<mapsto> ''foo.'', ''annotation'' \<mapsto> ''note'']] ''foo bar'')
   = Inr (''foo<a class="noteref Publisher" epub:type="noteref" href="#ch-note0">''
          @ ''<sup>1</sup></a> bar'')\<close>
proof -
  have "\<not> str_in ''foo.'' ''foo bar''" by code_simp
  then have "\<not> sublist ''foo.'' ''foo bar''" by (simp add: str_in_iff_sublist)
  moreover have
    \<open>map_sum id section_xml
       (process_annotations ''ch'' []
          [[''text'' \<mapsto> ''foo.'', ''annotation'' \<mapsto> ''note'']] ''foo bar'')
     = Inr (''foo<a class="noteref Publisher" epub:type="noteref" href="#ch-note0">''
            @ ''<sup>1</sup></a> bar'')\<close>
    by code_simp
  ultimately show ?thesis by blast
qed

text \<open>
  \<^bold>\<open>Claim C3, amended.\<close> The statement holds of the anchor as the code searches for it,
  in the markup as it is when the item is reached: an annotation whose \<^verbatim>\<open>text\<close>, with trailing periods
  removed, is not a substring of the current markup, and an addition whose
  \<^verbatim>\<open>existing_sentence\<close> is not a substring of it, change nothing and raise nothing; the loop
  goes on to the next item with the same state.
\<close>

theorem absent_anchor_skipped:
  "(annotation ''text'' = Some t \<and> \<not> sublist (rstrip t ''.'') (section_xml st) \<longrightarrow>
      annotate_step stem whitespace i annotation st = Inr st \<and>
      annotate_loop stem whitespace i (annotation # rest) st =
        annotate_loop stem whitespace (Suc i) rest st) \<and>
   (addition ''existing_sentence'' = Some e \<and> \<not> sublist e (section_xml st) \<longrightarrow>
      add_sentence whitespace (addition # rest') st = add_sentence whitespace rest' st)"
proof -
  have "annotate_step stem whitespace i annotation st = Inr st"
    if "annotation ''text'' = Some t" "\<not> sublist (rstrip t ''.'') (section_xml st)"
    using that by (auto simp: annotate_step_def Let_def str_in_iff_sublist)
  then show ?thesis
    by (simp add: str_in_iff_sublist)
qed

theorem absent_anchor_skipped_witness:
  "[''text'' \<mapsto> ''beta...'', ''annotation'' \<mapsto> ''second''] ''text'' = Some ''beta...'' \<and>
   \<not> sublist (rstrip ''beta...'' ''.'') (section_xml (merge_init ''alpha gamma'')) \<and>
   annotate_step ''ch'' [] 1 [''text'' \<mapsto> ''beta...'', ''annotation'' \<mapsto> ''second'']
     (merge_init ''alpha gamma'') = Inr (merge_init ''alpha gamma'') \<and>
   annotate_loop ''ch'' [] 1 ([''text'' \<mapsto> ''beta...'', ''annotation'' \<mapsto> ''second''] # [])
     (merge_init ''alpha gamma'') = annotate_loop ''ch'' [] (Suc 1) [] (merge_init ''alpha gamma'') \<and>
   [''existing_sentence'' \<mapsto> ''It hailed.'', ''new_sentence'' \<mapsto> ''Hard.'']
     ''existing_sentence'' = Some ''It hailed.'' \<and>
   \<not> sublist ''It hailed.'' (section_xml (merge_init ''alpha gamma'')) \<and>
   add_sentence [] ([''existing_sentence'' \<mapsto> ''It hailed.'', ''new_sentence'' \<mapsto> ''Hard.''] # [])
     (merge_init ''alpha gamma'') = add_sentence [] [] (merge_init ''alpha gamma'')"
proof -
  have "\<not> str_in (rstrip ''beta...'' ''.'') ''alpha gamma''"
       "\<not> str_in ''It hailed.'' ''alpha gamma''"
    by code_simp+
  then have sub: "\<not> sublist (rstrip ''beta...'' ''.'') (section_xml (merge_init ''alpha gamma''))"
       "\<not> sublist ''It hailed.'' (section_xml (merge_init ''alpha gamma''))"
    by (simp_all add: str_in_iff_sublist merge_init_def)
  with absent_anchor_skipped [of "[''text'' \<mapsto> ''beta...'', ''annotation'' \<mapsto> ''second'']"
      "''beta...''" "merge_init ''alpha gamma''" "''ch''" "[]" 1 "[]"
      "[''existing_sentence'' \<mapsto> ''It hailed.'', ''new_sentence'' \<mapsto> ''Hard.'']"
      "''It hailed.''" "[]"]
  show ?thesis by simp
qed

section \<open>Properties of the cache wrapper\<close>

text \<open>A key that is given and holds a value that counts as true is served from the shelf:
  the function is not called and the state is unchanged.\<close>

lemma cached_hit:
  assumes "key_given cache_key" and "truthy (get_cache (the cache_key) (cache_db s))"
  shows "cached func args cache_key s = (Inr (get_cache (the cache_key) (cache_db s)), s)"
  using assms by (simp add: cached_def)

text \<open>
  \<^bold>\<open>Claim C10.\<close> When a function wrapped by \<^verbatim>\<open>cached\<close> is called without a \<^verbatim>\<open>cache_key\<close>, or
  with an empty one, the underlying function is invoked unconditionally and the cache store
  is neither read nor written: its contents are the same before and after the call.

  The outcome and the new world are those of the function itself, whatever the shelf holds,
  and the shelf is the one the call started with.
\<close>

theorem cached_without_key:
  assumes "cache_key = None \<or> cache_key = Some []"
  shows "fst (cached func args cache_key s) = fst (func args (world s)) \<and>
         world (snd (cached func args cache_key s)) = snd (func args (world s)) \<and>
         cache_db (snd (cached func args cache_key s)) = cache_db s"
  using assms
  by (auto simp: cached_def key_given_def split: prod.splits sum.splits)

text \<open>A call with the empty key, on a shelf that holds a value under the empty key.\<close>

theorem cached_without_key_witness:
  "(Some [] = (None :: string option) \<or> Some [] = Some ([] :: string)) \<and>
   fst (cached (\<lambda>a w. (Inr (PStr a), Suc w)) ''fresh'' (Some [])
          \<lparr>cache_db = [[] \<mapsto> PStr ''stale''], world = 0\<rparr>) = Inr (PStr ''fresh'') \<and>
   world (snd (cached (\<lambda>a w. (Inr (PStr a), Suc w)) ''fresh'' (Some [])
          \<lparr>cache_db = [[] \<mapsto> PStr ''stale''], world = 0\<rparr>)) = Suc 0 \<and>
   cache_db (snd (cached (\<lambda>a w. (Inr (PStr a), Suc w)) ''fresh'' (Some [])
          \<lparr>cache_db = [[] \<mapsto> PStr ''stale''], world = 0\<rparr>)) = [[] \<mapsto> PStr ''stale'']"
  using cached_without_key [of "Some []" "\<lambda>a w. (Inr (PStr a), Suc w)" "''fresh''"
      "\<lparr>cache_db = [[] \<mapsto> PStr ''stale''], world = 0\<rparr>"]
  by simp

section \<open>Properties of the remote call adapter\<close>

lemma unwrap_items_wrapped: "unwrap_items (PDict [(''items'', v)]) = Inr v"
  by (simp add: unwrap_items_def)

lemma unwrap_all_wrapped: "unwrap_all (map (\<lambda>v. PDict [(''items'', v)]) vs) = Inr vs"
  by (induction vs) (simp_all add: unwrap_items_wrapped)

text \<open>
  \<^bold>\<open>Claim C8.\<close> When a list-shaped schema is requested, the adapter unwraps the single
  enclosing field of the parsed structured output into a plain ordered sequence of the
  contained items, for every response whose parsed structure consists of exactly that field.

  The tool is one built by \<^verbatim>\<open>make_openai_tool_list\<close>, and every choice of the response
  decodes to a dict with the one key \<^verbatim>\<open>items\<close> over a list. Without \<^verbatim>\<open>n\<close> the result is the
  list of the first choice; with \<^verbatim>\<open>n\<close> it is the list of these lists.
\<close>

theorem list_schema_unwrapped:
  assumes "arg_tool args = Some (make_openai_tool_list name description m)"
    and "chat args (length w) = Inr (map (\<lambda>items. PDict [(''items'', PList items)]) itemss)"
  shows "fst (get_completion_text chat args w) =
           (if arg_n args \<noteq> None then Inr (PList (map PList itemss))
            else case itemss of [] \<Rightarrow> Inl IndexError | items # _ \<Rightarrow> Inr (PList items))"
proof -
  have "unwrap_all (map (\<lambda>items. PDict [(''items'', PList items)]) itemss)
          = Inr (map PList itemss)"
    using unwrap_all_wrapped [of "map PList itemss"] by (simp add: comp_def)
  with assms show ?thesis
    by (simp add: get_completion_text_def Let_def split: list.splits)
qed

text \<open>The annotation request of a chapter, answered with two items.\<close>

theorem list_schema_unwrapped_witness:
  "arg_tool \<lparr>arg_prompt = ''Annotate.'', arg_tool = Some annotate_tool,
             arg_temperature = Some (12 / 10), arg_n = None\<rparr>
     = Some (make_openai_tool_list ''annotate'' ''Handle list of annotations'' Annotation) \<and>
   (\<lambda>a k. Inr [PDict [(''items'', PList [PStr ''one'', PStr ''two''])]])
       \<lparr>arg_prompt = ''Annotate.'', arg_tool = Some annotate_tool,
         arg_temperature = Some (12 / 10), arg_n = None\<rparr> (length ([] :: remote))
     = (Inr (map (\<lambda>items. PDict [(''items'', PList items)]) [[PStr ''one'', PStr ''two'']])
          :: error + pyval list) \<and>
   fst (get_completion_text (\<lambda>a k. Inr [PDict [(''items'', PList [PStr ''one'', PStr ''two''])]])
          \<lparr>arg_prompt = ''Annotate.'', arg_tool = Some annotate_tool,
            arg_temperature = Some (12 / 10), arg_n = None\<rparr> [])
     = Inr (PList [PStr ''one'', PStr ''two''])"
  using list_schema_unwrapped [of
      "\<lparr>arg_prompt = ''Annotate.'', arg_tool = Some annotate_tool,
         arg_temperature = Some (12 / 10), arg_n = None\<rparr>"
      "''annotate''" "''Handle list of annotations''" Annotation
      "\<lambda>a k. Inr [PDict [(''items'', PList [PStr ''one'', PStr ''two''])]]" "[]"
      "[[PStr ''one'', PStr ''two'']]"]
  by (simp add: annotate_tool_def)

section \<open>Properties of the dispatcher\<close>

lemma produced_init: "produced func jobs (replicate (length jobs) None)"
  by (simp add: produced_def)

lemma run_jobs_produced:
  assumes "produced func jobs futures"
  shows "produced func jobs (fst (run_jobs func jobs order futures s))"
  using assms
proof (induction order arbitrary: futures s)
  case Nil
  then show ?case by simp
next
  case (Cons i order)
  show ?case
  proof (cases "i < length jobs \<and> futures ! i = None")
    case True
    obtain r s' where f: "func (jobs ! i) s = (r, s')" by (cases "func (jobs ! i) s")
    have "produced func jobs (futures[i := Some r])"
      unfolding produced_def
    proof (intro conjI allI impI)
      show "length (futures[i := Some r]) = length jobs"
        using Cons.prems by (simp add: produced_def)
    next
      fix k assume k: "k < length jobs"
      show "futures[i := Some r] ! k = None
              \<or> (\<exists>s. futures[i := Some r] ! k = Some (fst (func (jobs ! k) s)))"
      proof (cases "k = i")
        case True
        have "r = fst (func (jobs ! i) s)" using f by simp
        with True k Cons.prems show ?thesis
          by (auto simp: produced_def)
      next
        case False
        with k Cons.prems show ?thesis by (simp add: produced_def)
      qed
    qed
    from Cons.IH [OF this] True f show ?thesis by simp
  next
    case False
    with Cons.IH [OF Cons.prems] show ?thesis by auto
  qed
qed

text \<open>A completed future stays completed.\<close>

lemma run_jobs_keeps:
  assumes "k < length futures" "futures ! k \<noteq> None"
  shows "fst (run_jobs func jobs order futures s) ! k \<noteq> None"
  using assms
proof (induction order arbitrary: futures s)
  case Nil
  then show ?case by simp
next
  case (Cons i order)
  show ?case
  proof (cases "i < length jobs \<and> futures ! i = None")
    case True
    obtain r s' where f: "func (jobs ! i) s = (r, s')" by (cases "func (jobs ! i) s")
    have "k < length (futures[i := Some r])" "futures[i := Some r] ! k \<noteq> None"
      using Cons.prems True by (cases "k = i"; simp)+
    from Cons.IH [OF this] True f show ?thesis by simp
  next
    case False
    with Cons.IH [OF Cons.prems] show ?thesis by auto
  qed
qed

text \<open>A job that some worker takes is completed.\<close>

lemma run_jobs_completes:
  assumes "k \<in> set order" "k < length jobs" "length futures = length jobs"
  shows "fst (run_jobs func jobs order futures s) ! k \<noteq> None"
  using assms
proof (induction order arbitrary: futures s)
  case Nil
  then show ?case by simp
next
  case (Cons i order)
  show ?case
  proof (cases "i < length jobs \<and> futures ! i = None")
    case True
    obtain r s' where f: "func (jobs ! i) s = (r, s')" by (cases "func (jobs ! i) s")
    have len: "length (futures[i := Some r]) = length jobs" using Cons.prems by simp
    show ?thesis
    proof (cases "k = i")
      case True
      have "futures[i := Some r] ! k \<noteq> None" using True Cons.prems by simp
      with run_jobs_keeps [of k "futures[i := Some r]" func jobs order s'] len Cons.prems(2)
      have "fst (run_jobs func jobs order (futures[i := Some r]) s') ! k \<noteq> None" by simp
      with \<open>i < length jobs \<and> futures ! i = None\<close> f show ?thesis by simp
    next
      case False
      with Cons.prems have "k \<in> set order" by simp
      from Cons.IH [OF this Cons.prems(2) len] \<open>i < length jobs \<and> futures ! i = None\<close> f
      show ?thesis by simp
    qed
  next
    case False
    show ?thesis
    proof (cases "k = i")
      case True
      with False Cons.prems have "futures ! k \<noteq> None" by simp
      with run_jobs_keeps [of k futures func jobs order s] Cons.prems
      have "fst (run_jobs func jobs order futures s) ! k \<noteq> None" by simp
      with False show ?thesis by auto
    next
      case F2: False
      with Cons.prems have "k \<in> set order" by simp
      from Cons.IH [OF this Cons.prems(2,3)] False show ?thesis by auto
    qed
  qed
qed

lemma collect_results_pure:
  "\<forall>j s. fst (func j s) = g j \<Longrightarrow>
   collect_results (map (\<lambda>j. Some (g j)) jobs) = Some (fst (run_sequential func jobs s))"
proof (induction jobs arbitrary: s)
  case Nil
  then show ?case by simp
next
  case (Cons j jobs)
  obtain r s' where f: "func j s = (r, s')" by (cases "func j s")
  with Cons.prems have g: "g j = r" by (metis fst_conv)
  show ?case
  proof (cases r)
    case (Inl e)
    with f g show ?thesis by simp
  next
    case (Inr v)
    with f g Cons.IH [OF Cons.prems, of s'] show ?thesis
      by (simp split: prod.splits sum.splits)
  qed
qed

text \<open>Reading stops at a failed future: the futures after it need not be completed.\<close>

lemma collect_results_error:
  assumes "\<forall>k\<le>i. fs ! k \<noteq> None" "i < length fs" "fs ! i = Some (Inl e')"
  shows "\<exists>e. collect_results fs = Some (Inl e)"
  using assms
proof (induction fs arbitrary: i rule: collect_results.induct)
  case 1
  then show ?case by simp
next
  case (2 fs)
  then show ?case by auto
next
  case (3 e fs)
  then show ?case by simp
next
  case (4 r fs)
  then obtain i' where i: "i = Suc i'" by (cases i) auto
  have "\<forall>k\<le>i'. fs ! k \<noteq> None"
  proof (intro allI impI)
    fix k assume "k \<le> i'"
    then have "Suc k \<le> i" using i by simp
    with 4(2) have "(Some (Inr r) # fs) ! Suc k \<noteq> None" by blast
    then show "fs ! k \<noteq> None" by simp
  qed
  moreover have "i' < length fs" "fs ! i' = Some (Inl e')" using 4(3,4) i by auto
  ultimately obtain e where "collect_results fs = Some (Inl e)" using 4(1) by blast
  then show ?case by simp
qed

text \<open>When the result of a job does not depend on the state it runs in, the futures end
  up holding the results of their jobs, and reading them gives what the sequential map
  gives.\<close>

lemma run_threaded_results:
  assumes pure: "\<forall>j s. fst (func j s) = g j"
    and all_run: "\<forall>i<length jobs. i \<in> set order"
  shows "fst (run_threaded func jobs order s) = Some (fst (run_sequential func jobs s))"
proof -
  let ?fs = "fst (run_jobs func jobs order (replicate (length jobs) None) s)"
  have p: "produced func jobs ?fs"
    by (rule run_jobs_produced [OF produced_init])
  have "?fs = map (\<lambda>j. Some (g j)) jobs"
  proof (rule nth_equalityI)
    show "length ?fs = length (map (\<lambda>j. Some (g j)) jobs)"
      using p by (simp add: produced_def)
  next
    fix k assume "k < length ?fs"
    then have k: "k < length jobs" using p by (simp add: produced_def)
    with all_run have "?fs ! k \<noteq> None"
      by (intro run_jobs_completes) simp_all
    with p k pure show "?fs ! k = map (\<lambda>j. Some (g j)) jobs ! k"
      by (auto simp: produced_def)
  qed
  then show ?thesis
    using collect_results_pure [OF pure, of jobs s]
    by (cases "run_jobs func jobs order (replicate (length jobs) None) s")
       (simp add: run_threaded_def)
qed

text \<open>
  \<^bold>\<open>Claim C7.\<close> \<^verbatim>\<open>run_threaded\<close> returns the results in submission order whatever the order
  of completion: \<^verbatim>\<open>run_threaded(func, jobs)\<close> returns what applying \<^verbatim>\<open>func\<close> to each job in
  turn returns.

  The result of a job is taken to be determined by the job (\<open>g\<close>), as it is for jobs that
  do not read what other jobs write; every job is taken by some worker. Then for every
  order of completion the outcome, a list of results or the first exception in submission
  order, is that of the sequential map.
\<close>

theorem run_threaded_order_preserved:
  assumes "\<forall>j s. fst (func j s) = g j"
    and "\<forall>i<length jobs. i \<in> set order"
  shows "fst (run_threaded func jobs order s) = Some (fst (run_sequential func jobs s))"
  using assms by (rule run_threaded_results)

text \<open>Jobs A to E that complete in reverse order, E first.\<close>

theorem run_threaded_order_preserved_witness:
  "(\<forall>j (s::string list). fst ((\<lambda>j s. (Inr (j @ ''!''), s @ [j])) j s)
       = (\<lambda>j. (Inr (j @ ''!'') :: error + string)) j) \<and>
   list_all (\<lambda>i. i \<in> set [4, 3, 2, 1, 0::nat]) [0..<length [''A'', ''B'', ''C'', ''D'', ''E'']] \<and>
   fst (run_threaded (\<lambda>j s. (Inr (j @ ''!''), s @ [j]))
          [''A'', ''B'', ''C'', ''D'', ''E''] [4, 3, 2, 1, 0] [])
     = Some (Inr [''A!'', ''B!'', ''C!'', ''D!'', ''E!''] :: error + string list)"
proof -
  have b: "\<forall>i<length [''A'', ''B'', ''C'', ''D'', ''E'']. i \<in> set [4, 3, 2, 1, 0::nat]"
    by auto
  with run_threaded_order_preserved [of "\<lambda>j s. (Inr (j @ ''!''), s @ [j])"
      "\<lambda>j. Inr (j @ ''!'')" "[''A'', ''B'', ''C'', ''D'', ''E'']" "[4, 3, 2, 1, 0]" "[]"]
  show ?thesis by (simp add: list_all_iff)
qed

section \<open>Failure of a chapter\<close>

text \<open>
  \<^bold>\<open>Claim C6, as stated.\<close> When a full document is processed, a failure while processing one chapter
  does not prevent the sibling chapters from being processed and their results from being
  produced.

  The code has no such isolation. Two chapters, of which the first fails and the second
  returns its manifest line: \<^verbatim>\<open>process_epub\<close> ends with the exception of the first, and the
  result of the second is not produced.
\<close>

theorem chapter_failure_not_isolated:
  "fst (process_epub
         (\<lambda>c log. (if c = ''chapter-1'' then Inl RemoteCallError
                    else Inr (Some (''item '' @ c)), log @ [c]))
         [''chapter-1'', ''chapter-2''] [0, 1] [])
     = Some (Inl RemoteCallError)"
  by (simp add: process_epub_def run_threaded_def)

text \<open>
  \<^bold>\<open>Claim C6, amended.\<close> When the processing of some chapter raises, in whatever state it
  runs, and that chapter and the chapters submitted before it are taken by a worker (later
  ones may never be started), \<^verbatim>\<open>process_epub\<close> ends with an exception: no list of chapter
  results is returned and nothing is added to the manifest.
\<close>

theorem chapter_failure_aborts_document:
  assumes fails: "i < length jobs" "\<forall>s. isl (fst (process_chapter (jobs ! i) s))"
    and taken: "\<forall>k\<le>i. k \<in> set order"
  shows "\<exists>e. fst (process_epub process_chapter jobs order s) = Some (Inl e)"
proof -
  obtain fs s' where
    run: "run_jobs process_chapter jobs order (replicate (length jobs) None) s = (fs, s')"
    by (cases "run_jobs process_chapter jobs order (replicate (length jobs) None) s")
  have p: "produced process_chapter jobs fs"
    using run_jobs_produced [OF produced_init, of process_chapter jobs order s] run by simp
  then have len: "length fs = length jobs" by (simp add: produced_def)
  have some: "\<forall>k\<le>i. fs ! k \<noteq> None"
  proof (intro allI impI)
    fix k assume "k \<le> i"
    with fails(1) taken have "k \<in> set order" "k < length jobs" by auto
    from run_jobs_completes [OF this, of "replicate (length jobs) None" process_chapter s] run
    show "fs ! k \<noteq> None" by simp
  qed
  then have "fs ! i \<noteq> None" by simp
  moreover from p fails(1)
  have "fs ! i = None \<or> (\<exists>s0. fs ! i = Some (fst (process_chapter (jobs ! i) s0)))"
    by (simp add: produced_def)
  ultimately obtain s0 where "fs ! i = Some (fst (process_chapter (jobs ! i) s0))"
    by auto
  moreover from fails(2) obtain e' where "fst (process_chapter (jobs ! i) s0) = Inl e'"
    by (metis isl_def)
  ultimately have "fs ! i = Some (Inl e')" by simp
  with some fails(1) len obtain e where "collect_results fs = Some (Inl e)"
    using collect_results_error [of i fs e'] by auto
  with run show ?thesis
    by (simp add: process_epub_def run_threaded_def)
qed

text \<open>The same two chapters, the second completing first.\<close>

theorem chapter_failure_aborts_document_witness:
  "(0::nat) < length [''chapter-1'', ''chapter-2''] \<and>
   (\<forall>s::string list.
      isl (fst ((\<lambda>c log. (if c = ''chapter-1'' then Inl RemoteCallError
                          else Inr (Some (''item '' @ c)), log @ [c]))
                ([''chapter-1'', ''chapter-2''] ! 0) s))) \<and>
   list_all (\<lambda>k. k \<in> set [1, 0::nat]) [0..<Suc 0] \<and>
   (\<exists>e. fst (process_epub
               (\<lambda>c log. (if c = ''chapter-1'' then Inl RemoteCallError
                          else Inr (Some (''item '' @ c)), log @ [c]))
               [''chapter-1'', ''chapter-2''] [1, 0] []) = Some (Inl e))"
proof -
  have c: "\<forall>k\<le>0. k \<in> set [1, 0::nat]" by auto
  with chapter_failure_aborts_document [of 0 "[''chapter-1'', ''chapter-2'']"
      "\<lambda>c log. (if c = ''chapter-1'' then Inl RemoteCallError
                 else Inr (Some (''item '' @ c)), log @ [c])"
      "[1, 0]" "[]"]
  show ?thesis by (simp add: list_all_iff)
qed

section \<open>Placement of the illustration\<close>

text \<open>Every path that \<open>select\<close> returns leads to an element with the tag asked for.\<close>

lemma select_valid:
  "\<forall>p\<in>set (select tag t). p \<noteq> [] \<and> (\<exists>cs. node_at p t = Some (Element tag cs))"
  "\<forall>p\<in>set (select_children tag i cs).
     \<exists>k q. p = (i + k) # q \<and> k < length cs \<and>
           (\<exists>cs'. node_at q (cs ! k) = Some (Element tag cs'))"
proof (induction tag t and tag i cs rule: select_select_children.induct)
  case (1 tag m)
  then show ?case by simp
next
  case (2 tag t cs)
  then show ?case by fastforce
next
  case (3 tag i)
  then show ?case by simp
next
  case (4 tag i c cs)
  show ?case
  proof
    fix p assume "p \<in> set (select_children tag i (c # cs))"
    then consider (self) "is_element tag c" "p = [i]"
      | (below) q where "q \<in> set (select tag c)" "p = i # q"
      | (later) "p \<in> set (select_children tag (Suc i) cs)"
      by (auto split: if_splits)
    then show "\<exists>k q. p = (i + k) # q \<and> k < length (c # cs) \<and>
                 (\<exists>cs'. node_at q ((c # cs) ! k) = Some (Element tag cs'))"
    proof cases
      case self
      then obtain cs' where "c = Element tag cs'" by (cases c) auto
      with self show ?thesis by (intro exI [of _ 0] exI [of _ "[]"]) simp
    next
      case below
      with 4(1) obtain cs' where "node_at q c = Some (Element tag cs')" by blast
      with below show ?thesis by (intro exI [of _ 0] exI [of _ q]) simp
    next
      case later
      with 4(2) obtain k q where "p = (Suc i + k) # q" "k < length cs"
        "\<exists>cs'. node_at q (cs ! k) = Some (Element tag cs')" by blast
      then show ?thesis by (intro exI [of _ "Suc k"] exI [of _ q]) simp
    qed
  qed
qed

text \<open>After \<open>insert_after\<close> the node is where it was and the new node is its next sibling.\<close>

lemma insert_after_node:
  "p \<noteq> [] \<Longrightarrow> node_at p t = Some x \<Longrightarrow>
   node_at p (insert_after p new t) = Some x \<and>
   node_at (next_sibling p) (insert_after p new t) = Some new"
proof (induction p new t rule: insert_after.induct)
  case (1 new t)
  then show ?case by simp
next
  case (2 i new tag cs)
  then show ?case
    by (auto simp: next_sibling_def nth_append split: if_splits)
next
  case (3 i v va new tag cs)
  then show ?case
    by (auto simp: next_sibling_def split: if_splits)
next
  case (4 i p new m)
  then show ?case by simp
qed

lemma caption_in_block:
  "sublist (''<p><em>'' @ sentence @ ''</em></p>'')
     (illustration_block whitespace image_name sentence)"
  unfolding illustration_block_def sublist_def
  by (metis append.assoc)

text \<open>
  \<^bold>\<open>Claim C9.\<close> The illustration block is inserted immediately after the middle paragraph of
  the chapter, the paragraph at index \<open>n div 2\<close> among its \<open>n\<close> paragraph elements (index 3
  for \<open>n = 7\<close>), with the anchor sentence of the illustration as its caption verbatim.

  For a section with \<open>n > 0\<close> paragraphs the step returns a section in which the paragraph
  at index \<open>n div 2\<close> of the document order is where it was, its next sibling is the block,
  and the block holds the sentence between \<^verbatim>\<open><p><em>\<close> and \<^verbatim>\<open></em></p>\<close>. (With no
  paragraph at all, line 304 raises IndexError.)
\<close>

theorem illustration_after_middle_paragraph:
  assumes "length (select ''p'' section) = n" and "0 < n"
    and "illustration ''existing_sentence'' = Some sentence"
  shows "\<exists>section' cs.
           insert_illustration whitespace image_name illustration section = Inr section' \<and>
           node_at (select ''p'' section ! (n div 2)) section = Some (Element ''p'' cs) \<and>
           node_at (select ''p'' section ! (n div 2)) section' = Some (Element ''p'' cs) \<and>
           node_at (next_sibling (select ''p'' section ! (n div 2))) section'
             = Some (Markup (illustration_block whitespace image_name sentence)) \<and>
           sublist (''<p><em>'' @ sentence @ ''</em></p>'')
             (illustration_block whitespace image_name sentence)"
proof -
  let ?mid = "select ''p'' section ! (n div 2)"
  let ?block = "Markup (illustration_block whitespace image_name sentence)"
  from assms(1,2) have "n div 2 < length (select ''p'' section)" by simp
  then have "?mid \<in> set (select ''p'' section)" by simp
  with select_valid(1) [of "''p''" "section"]
  obtain cs where mid: "?mid \<noteq> []" "node_at ?mid section = Some (Element ''p'' cs)" by blast
  from assms have "insert_illustration whitespace image_name illustration section
      = Inr (insert_after ?mid ?block section)"
    by (auto simp: insert_illustration_def Let_def)
  with insert_after_node [OF mid, of ?block] mid(2) caption_in_block show ?thesis
    by blast
qed

text \<open>Seven paragraphs: the middle one is the paragraph at index 3, the second of the
  block quote, and the block becomes the third child of the block quote.\<close>

theorem illustration_after_middle_paragraph_witness:
  "length (select ''p'' sample_section) = 7 \<and> (0::nat) < 7 \<and>
   [''existing_sentence'' \<mapsto> ''It rained.'', ''image_description'' \<mapsto> ''Rain on a roof'']
     ''existing_sentence'' = Some ''It rained.'' \<and>
   select ''p'' sample_section ! (7 div 2) = [3, 1] \<and>
   (\<exists>section'.
      insert_illustration ''  '' ''illustration_chapter-1.png''
        [''existing_sentence'' \<mapsto> ''It rained.'', ''image_description'' \<mapsto> ''Rain on a roof'']
        sample_section = Inr section' \<and>
      node_at [3, 1] section' = Some (Element ''p'' []) \<and>
      node_at [3, 2] section'
        = Some (Markup (illustration_block ''  '' ''illustration_chapter-1.png'' ''It rained.'')))"
proof -
  let ?ill = "[''existing_sentence'' \<mapsto> ''It rained.'',
               ''image_description'' \<mapsto> ''Rain on a roof''] :: pydict"
  have sel: "select ''p'' sample_section = [[1], [2], [3, 0], [3, 1], [4], [5], [6]]"
    by code_simp
  then have len: "length (select ''p'' sample_section) = 7" by simp
  have pos: "(0::nat) < 7" by simp
  have ill: "?ill ''existing_sentence'' = Some ''It rained.''" by simp
  have mid: "select ''p'' sample_section ! (7 div 2) = [3, 1]"
    unfolding sel by simp
  have nxt: "next_sibling [3, 1] = [3, 2]"
    by (simp add: next_sibling_def)
  have at: "node_at [3, 1] sample_section = Some (Element ''p'' [])"
    by (simp add: sample_section_def)
  from illustration_after_middle_paragraph [of sample_section 7 ?ill "''It rained.''"
      "''  ''" "''illustration_chapter-1.png''", OF len pos ill]
  obtain section' cs where
    "insert_illustration ''  '' ''illustration_chapter-1.png'' ?ill sample_section = Inr section'"
    "node_at [3, 1] sample_section = Some (Element ''p'' cs)"
    "node_at [3, 1] section' = Some (Element ''p'' cs)"
    "node_at [3, 2] section'
       = Some (Markup (illustration_block ''  '' ''illustration_chapter-1.png'' ''It rained.''))"
    unfolding mid nxt by blast
  with at len pos ill mid show ?thesis by auto
qed

section \<open>A second run of the queries\<close>

text \<open>A job function that leaves the state \<open>s\<close> as it is runs in \<open>s\<close> whatever the order.\<close>

lemma run_jobs_stable:
  assumes "\<forall>j\<in>set jobs. func j s = (v j, s)"
  shows "run_jobs func jobs order futures s = run_jobs (\<lambda>j _. (v j, s)) jobs order futures s"
  using assms
proof (induction order arbitrary: futures)
  case Nil
  then show ?case by simp
next
  case (Cons i order)
  then show ?case by (simp add: nth_mem)
qed

lemma run_sequential_const:
  "fst (run_sequential (\<lambda>j _. (Inr (u j), s)) jobs s') = Inr (map u jobs)"
proof (induction jobs arbitrary: s')
  case Nil
  then show ?case by simp
next
  case (Cons j jobs)
  obtain r t where rt: "run_sequential (\<lambda>j _. (Inr (u j), s)) jobs s = (r, t)"
    by (cases "run_sequential (\<lambda>j _. (Inr (u j), s)) jobs s")
  with Cons [of s] have "r = Inr (map u jobs)" by simp
  with rt show ?case by simp
qed

lemma run_jobs_const_state:
  "snd (run_jobs (\<lambda>j _. (v j, s)) jobs order futures s) = s"
  by (induction order arbitrary: futures) simp_all

lemma run_threaded_stable:
  assumes stable: "\<forall>j\<in>set jobs. func j s = (Inr (u j), s)"
    and all_run: "\<forall>i<length jobs. i \<in> set order"
  shows "run_threaded func jobs order s = (Some (Inr (map u jobs)), s)"
proof -
  have eq: "run_threaded func jobs order s
              = run_threaded (\<lambda>j _. (Inr (u j), s)) jobs order s"
    using run_jobs_stable [of jobs func s "\<lambda>j. Inr (u j)"] stable
    by (simp add: run_threaded_def)
  have "fst (run_threaded (\<lambda>j _. (Inr (u j), s)) jobs order s)
          = Some (fst (run_sequential (\<lambda>j _. (Inr (u j), s)) jobs s))"
    by (rule run_threaded_results [where g = "\<lambda>j. Inr (u j)"]) (simp_all add: all_run)
  then have "fst (run_threaded (\<lambda>j _. (Inr (u j), s)) jobs order s) = Some (Inr (map u jobs))"
    by (simp add: run_sequential_const)
  moreover have "snd (run_threaded (\<lambda>j _. (Inr (u j), s)) jobs order s) = s"
    using run_jobs_const_state [of "\<lambda>j. Inr (u j)" s jobs order "replicate (length jobs) None"]
    by (cases "run_jobs (\<lambda>j _. (Inr (u j), s)) jobs order (replicate (length jobs) None) s")
       (simp add: run_threaded_def)
  ultimately show ?thesis
    using eq by (simp add: prod_eq_iff)
qed

text \<open>
  When the shelf holds, under each of the five keys of the chapter, a value that counts as
  true, the queries return these values, issue no request and leave the shelf as it is,
  whatever the order in which the workers take them.
\<close>

lemma queries_served_from_cache:
  assumes "\<forall>j\<in>set (prompts instr stem title author chapter_text).
             truthy (get_cache (the (job_cache_key j)) (cache_db s))"
    and "\<forall>i<5. i \<in> set order"
  shows "process_chapter_queries chat instr stem title author chapter_text order s
           = (Some (Inr (map (\<lambda>j. get_cache (the (job_cache_key j)) (cache_db s))
                          (prompts instr stem title author chapter_text))), s)"
proof -
  let ?jobs = "prompts instr stem title author chapter_text"
  have keys: "\<forall>j\<in>set ?jobs. key_given (job_cache_key j)"
    by (simp add: prompts_def Let_def key_given_def)
  have len: "length ?jobs = 5"
    by (simp add: prompts_def Let_def)
  have "\<forall>j\<in>set ?jobs.
          cached (get_completion_text chat) (job_args j) (job_cache_key j) s
            = (Inr (get_cache (the (job_cache_key j)) (cache_db s)), s)"
    using keys assms(1) by (simp add: cached_hit)
  then show ?thesis
    unfolding process_chapter_queries_def
    by (rule run_threaded_stable) (simp add: len assms(2))
qed

text \<open>
  \<^bold>\<open>Claim C2.\<close> Running the chapter pipeline a second time, with the cache store and the
  source chapter unmodified, produces byte-identical output markup and issues no remote
  generation call on the second run, for every chapter and every set of cached results.

  The code does not do this for a cached result that counts as false. The wrapper stores
  every result (line 56) but serves a stored one only if it is true as a condition (line
  52), so an empty list of annotations, which the merge accepts (line 270), is stored by
  the first run and asked for again by the second. Here the first run starts on an empty
  shelf and issues five requests; the second run starts on the shelf the first one left and
  issues the annotation request a sixth time, and since the backend now answers with an
  item, the annotations it merges are not those of the first run.
\<close>

theorem second_run_repeats_remote_call:
  "length (world (snd (sample_queries \<lparr>cache_db = Map.empty, world = []\<rparr>))) = 5 \<and>
   cache_db (snd (sample_queries \<lparr>cache_db = Map.empty, world = []\<rparr>))
     ''annotation19_chapter-1'' = Some (PList []) \<and>
   map_option (map_sum id (\<lambda>results. results ! 2))
     (fst (sample_queries \<lparr>cache_db = Map.empty, world = []\<rparr>)) = Some (Inr (PList [])) \<and>
   length (world (snd (sample_queries
                         (snd (sample_queries \<lparr>cache_db = Map.empty, world = []\<rparr>))))) = 6 \<and>
   map arg_tool (drop 5 (world (snd (sample_queries
                         (snd (sample_queries \<lparr>cache_db = Map.empty, world = []\<rparr>))))))
     = [Some annotate_tool] \<and>
   map_option (map_sum id (\<lambda>results. results ! 2))
     (fst (sample_queries (snd (sample_queries \<lparr>cache_db = Map.empty, world = []\<rparr>))))
     = Some (Inr (PList [PDict [(''text'', PStr ''rained''),
                                (''annotation'', PStr ''As it will.'')]]))"
  by code_simp

end
